theory Spec2Isabelle
  imports Main "HOL-Library.Word"
begin

unbundle bit_operations_syntax

section \<open>Basic types\<close>

type_synonym uint64 = "64 word"

text \<open>\<open>common.Hash\<close> is a 32-byte array.\<close>

type_synonym Hash = "256 word"

text \<open>\<open>downloader.SyncMode\<close> is a Go \<open>int\<close>; no arithmetic is done on it here.\<close>

type_synonym SyncMode = int

text \<open>
  Errors are values. The first two are the errors \<open>New\<close> builds itself
  (\<open>errors.New\<close>, \<open>fmt.Errorf\<close>); \<open>ErrExternal\<close> stands for an error value handed
  back by a collaborator; \<open>NilPointerDereference\<close> is the Go runtime panic of a method
  that reads a field through a nil receiver.
\<close>

datatype error =
    ErrLightSyncMode
  | ErrInvalidSyncMode SyncMode
  | ErrDBVersionMismatch int int
  | ErrExternal string
  | NilPointerDereference

text \<open>
  \<open>genesisErr\<close> of \<open>core.SetupGenesisBlock\<close>: either a \<open>*params.ConfigCompatError\<close>
  (with its \<open>RewindTo\<close> block number) or any other error.
\<close>

datatype GenesisErr = ConfigCompatError uint64 | OtherGenesisError string

section \<open>The chain indexer handle\<close>

text \<open>
  \<open>core.ChainIndexer\<close>, \<open>ath.NewBloomIndexer\<close>, \<open>ChainIndexer.Sections\<close> and
  \<open>ChainIndexer.Start\<close> are not under src/; only their callers are. This section is
  the indexer as the node sees it through its pointer: its section size and its
  status. The indexer's own state machine is modelled further down.
\<close>

text \<open>Modelled from the spec: the \<open>ChainIndexer\<close> struct is missing; the spec gives the
  indexer a fixed section size and the status triple
  \<open>(storedCount, lastHead, hasCheckpoint)\<close>, and lets it be started.\<close>

record ChainIndexer =
  sectionSize :: uint64
  storedSections :: uint64
  lastHead :: uint64
  hasCheckpoint :: bool
  active :: bool

text \<open>Modelled from the spec: \<open>NewBloomIndexer(db, size)\<close> is missing; it builds an
  indexer of section size \<open>size\<close> that has stored nothing and is not started.\<close>

definition NewBloomIndexer :: "nat \<Rightarrow> uint64 \<Rightarrow> ChainIndexer" where
  "NewBloomIndexer db size' =
     \<lparr>sectionSize = size', storedSections = 0, lastHead = 0, hasCheckpoint = False,
      active = False\<rparr>"

text \<open>Modelled from the spec: \<open>ChainIndexer.Sections\<close> is missing;
  \<open>Sections() \<rightarrow> (storedCount, lastHead, hasCheckpoint)\<close>.\<close>

definition Sections :: "ChainIndexer \<Rightarrow> uint64 \<times> uint64 \<times> bool" where
  "Sections c = (storedSections c, lastHead c, hasCheckpoint c)"

text \<open>Modelled from the spec: \<open>ChainIndexer.Start\<close> is missing; \<open>Start(chain)\<close> begins
  tracking the chain.\<close>

definition Start :: "ChainIndexer \<Rightarrow> ChainIndexer" where
  "Start c = c\<lparr>active := True\<rparr>"

text \<open>
  A Go pointer is \<open>None\<close> when nil. Calling a method that reads the receiver's
  fields through a nil pointer panics.
\<close>

definition deref :: "'a option \<Rightarrow> error + 'a" where
  "deref p = (case p of None \<Rightarrow> Inl NilPointerDereference | Some x \<Rightarrow> Inr x)"

section \<open>Collaborators and constants that are not under src/\<close>

text \<open>
  The constants and external calls \<open>New\<close> and the API backends use are parameters:
  \<open>downloader.LightSync\<close>, \<open>SyncMode.IsValid\<close>, \<open>params.BloomBitsBlocks\<close>,
  \<open>light.BloomTrieFrequency\<close>, \<open>core.BlockChainVersion\<close>, and the outcomes of
  \<open>ctx.OpenDatabase\<close>, \<open>core.SetupGenesisBlock\<close>, \<open>rawdb.ReadDatabaseVersion\<close>,
  \<open>core.NewBlockChain\<close> and \<open>NewProtocolManager\<close>. Databases, chain configurations,
  block chains and protocol managers are opaque handles (\<open>nat\<close>).
\<close>

record World =
  LightSync :: SyncMode
  IsValid :: "SyncMode \<Rightarrow> bool"
  BloomBitsBlocks :: uint64
  BloomTrieFrequency :: uint64
  BlockChainVersion :: int
  OpenDatabase :: "string \<Rightarrow> error + nat"
  SetupGenesisBlock :: "nat \<Rightarrow> nat \<times> Hash \<times> GenesisErr option"
  ReadDatabaseVersion :: "nat \<Rightarrow> int"
  NewBlockChain :: "nat \<Rightarrow> nat \<Rightarrow> error + nat"
  NewProtocolManager :: "nat \<Rightarrow> SyncMode \<Rightarrow> uint64 \<Rightarrow> error + nat"

section \<open>eth/config.go, eth/backend.go\<close>

text \<open>The fields of \<open>Config\<close> that \<open>New\<close> branches on or copies.\<close>

record Config =
  NetworkId :: uint64
  SyncMode :: SyncMode
  SkipBcVersionCheck :: bool
  GasPrice :: int

text \<open>
  The \<open>Atlantis\<close> struct. \<open>bloomRequests\<close> is the channel made in \<open>New\<close> (a handle);
  pointers are options. Fields that no modelled function reads are left out.
\<close>

record Atlantis =
  config :: Config
  chainConfig :: nat
  chainDb :: nat
  networkId :: uint64
  gasPrice :: int
  bloomRequests :: nat
  bloomIndexer :: "ChainIndexer option"
  blockchain :: "nat option"
  protocolManager :: "nat option"
  lesServer :: "nat option"

text \<open>
  What \<open>New\<close> does to the outside world, in the order it does it. The function
  returns the log of these effects next to its result, so that "fails before
  creating X" is a statement about the log.
\<close>

datatype effect =
    Eff_OpenDatabase string
  | Eff_SetupGenesisBlock nat
  | Eff_CreateConsensusEngine
  | Eff_MakeShutdownChan
  | Eff_MakeBloomRequests
  | Eff_NewBloomIndexer nat uint64
  | Eff_WriteDatabaseVersion int
  | Eff_NewBlockChain
  | Eff_SetHead uint64
  | Eff_WriteChainConfig
  | Eff_IndexerStart
  | Eff_NewTxPool
  | Eff_NewProtocolManager
  | Eff_NewMiner
  | Eff_NewOracle

text \<open>
  \<open>New\<close>, statement by statement. Every \<open>return nil, err\<close> of the source is an
  \<open>Inl\<close> branch. The channel handle of \<open>bloomRequests\<close> is \<open>0\<close>.
\<close>

definition New :: "World \<Rightarrow> Config \<Rightarrow> (error + Atlantis) \<times> effect list" where
  "New w cfg =
    (if SyncMode cfg = LightSync w then (Inl ErrLightSyncMode, [])
     else if \<not> IsValid w (SyncMode cfg) then (Inl (ErrInvalidSyncMode (SyncMode cfg)), [])
     else
      (let e1 = [Eff_OpenDatabase ''chaindata''] in
       (case OpenDatabase w ''chaindata'' of
         Inl err \<Rightarrow> (Inl err, e1)
       | Inr db \<Rightarrow>
         (case SetupGenesisBlock w db of (cc, genesisHash, genesisErr) \<Rightarrow>
          (let e2 = e1 @ [Eff_SetupGenesisBlock db] in
           (case genesisErr of
             Some (OtherGenesisError msg) \<Rightarrow> (Inl (ErrExternal msg), e2)
           | _ \<Rightarrow>
            (let ath = \<lparr>config = cfg, chainConfig = cc, chainDb = db,
                        networkId = NetworkId cfg, gasPrice = GasPrice cfg,
                        bloomRequests = 0,
                        bloomIndexer = Some (NewBloomIndexer db (BloomBitsBlocks w)),
                        blockchain = None, protocolManager = None, lesServer = None\<rparr>;
                 e3 = e2 @ [Eff_CreateConsensusEngine, Eff_MakeShutdownChan,
                            Eff_MakeBloomRequests,
                            Eff_NewBloomIndexer db (BloomBitsBlocks w)];
                 bcVersion = ReadDatabaseVersion w db
             in
             (if \<not> SkipBcVersionCheck cfg \<and> bcVersion \<noteq> BlockChainVersion w \<and> bcVersion \<noteq> 0
              then (Inl (ErrDBVersionMismatch bcVersion (BlockChainVersion w)), e3)
              else
               (let e4 = (if \<not> SkipBcVersionCheck cfg
                          then e3 @ [Eff_WriteDatabaseVersion (BlockChainVersion w)] else e3);
                    e5 = e4 @ [Eff_NewBlockChain] in
                (case NewBlockChain w db cc of
                  Inl err \<Rightarrow> (Inl err, e5)
                | Inr bc \<Rightarrow>
                  (let ath1 = ath\<lparr>blockchain := Some bc\<rparr>;
                       e6 = (case genesisErr of
                               Some (ConfigCompatError rewindTo) \<Rightarrow>
                                 e5 @ [Eff_SetHead rewindTo, Eff_WriteChainConfig]
                             | _ \<Rightarrow> e5);
                       ath2 = ath1\<lparr>bloomIndexer := map_option Start (bloomIndexer ath1)\<rparr>;
                       e7 = e6 @ [Eff_IndexerStart, Eff_NewTxPool, Eff_NewProtocolManager] in
                   (case NewProtocolManager w cc (SyncMode cfg) (NetworkId cfg) of
                     Inl err \<Rightarrow> (Inl err, e7)
                   | Inr pm \<Rightarrow>
                       (Inr (ath2\<lparr>protocolManager := Some pm\<rparr>),
                        e7 @ [Eff_NewMiner, Eff_NewOracle])))))))))))))"



section \<open>eth/api_backend.go, les/api_backend.go\<close>

text \<open>
  \<open>EthAPIBackend.BloomStatus\<close>: \<open>b.ath.bloomIndexer.Sections()\<close> with no nil check,
  then \<open>return params.BloomBitsBlocks, sections\<close>. The argument is the node \<open>b.ath\<close>.
\<close>

definition EthAPIBackend_BloomStatus :: "World \<Rightarrow> Atlantis \<Rightarrow> error + (uint64 \<times> uint64)" where
  "EthAPIBackend_BloomStatus w ath =
     (case deref (bloomIndexer ath) of
        Inl e \<Rightarrow> Inl e
      | Inr ix \<Rightarrow> (case Sections ix of (sections, _, _) \<Rightarrow> Inr (BloomBitsBlocks w, sections)))"

text \<open>The \<open>LightAtlantis\<close> struct is not under src/; \<open>BloomStatus\<close> reads one field of it.\<close>

record LightAtlantis =
  l_bloomIndexer :: "ChainIndexer option"

definition LesApiBackend_BloomStatus :: "World \<Rightarrow> LightAtlantis \<Rightarrow> error + (uint64 \<times> uint64)" where
  "LesApiBackend_BloomStatus w ath =
     (if l_bloomIndexer ath = None then Inr (0, 0)
      else case deref (l_bloomIndexer ath) of
        Inl e \<Rightarrow> Inl e
      | Inr ix \<Rightarrow> (case Sections ix of (sections, _, _) \<Rightarrow> Inr (BloomTrieFrequency w, sections)))"

section \<open>Bit-plane codec\<close>

text \<open>
  The packages \<open>core/bloombits\<close> (generator, matcher, scheduler) and \<open>core\<close> (chain
  indexer) are not under src/; only their callers in \<open>eth\<close> and \<open>les\<close> are. The
  definitions of this and the next two sections are modelled from the spec.
\<close>

text \<open>Modelled from the spec: the bloom filter type is missing; section 3 makes it a
  fixed-width 2048-bit filter attached to one block.\<close>

type_synonym Bloom = "2048 word"

text \<open>Modelled from the spec: the fragment type is missing; section 3 makes it a byte
  vector holding one bit per block of the section.\<close>

type_synonym Fragment = "8 word list"

text \<open>Modelled from the spec: the number of bit planes, \<open>bitIndex \<in> [0,2047]\<close>.\<close>

definition BloomBitLength :: nat where
  "BloomBitLength = 2048"

text \<open>Modelled from the spec: the fragment's length in bytes, \<open>sectionSize/8\<close> bits
  rounded up to whole bytes (so that a section of 4 blocks has one byte).\<close>

definition fragmentLength :: "nat \<Rightarrow> nat" where
  "fragmentLength size' = (size' + 7) div 8"

text \<open>Modelled from the spec: bit addressing inside a byte, \<open>bit = offset%8\<close>, counted
  from the most significant bit (section 6: big-endian bit within byte).\<close>

definition bitMask :: "nat \<Rightarrow> 8 word" where
  "bitMask off = push_bit (7 - off mod 8) 1"

text \<open>Modelled from the spec: setting the bit of block offset \<open>off\<close> in a fragment, at
  \<open>byte = offset/8\<close>.\<close>

definition setBit :: "Fragment \<Rightarrow> nat \<Rightarrow> Fragment" where
  "setBit frag off = frag[off div 8 := (frag ! (off div 8)) OR bitMask off]"

text \<open>Modelled from the spec: the implicit decoder, a bit test at \<open>byte = offset/8\<close>,
  \<open>bit = offset%8\<close>. An offset beyond the fragment is not set.\<close>

definition testBit :: "Fragment \<Rightarrow> nat \<Rightarrow> bool" where
  "testBit frag off = (off div 8 < length frag \<and> (frag ! (off div 8)) AND bitMask off \<noteq> 0)"

text \<open>Modelled from the spec: one block's contribution, exactly one bit per plane at
  the position equal to the block's offset within the section.\<close>

definition addBloom :: "nat \<Rightarrow> Bloom \<Rightarrow> Fragment list \<Rightarrow> Fragment list" where
  "addBloom off bloom planes =
     map (\<lambda>i. if bit bloom i then setBit (planes ! i) off else planes ! i) [0..<length planes]"

text \<open>Modelled from the spec: the blocks of a section are processed in ascending
  order.\<close>

fun addBlooms :: "nat \<Rightarrow> Bloom list \<Rightarrow> Fragment list \<Rightarrow> Fragment list" where
  "addBlooms off [] planes = planes"
| "addBlooms off (b # bs) planes = addBlooms (Suc off) bs (addBloom off b planes)"

text \<open>Modelled from the spec: \<open>encode(sectionBlooms) \<rightarrow> mapping bitIndex \<rightarrow> byte-vector\<close>;
  the result is the list of the 2048 planes, indexed by \<open>bitIndex\<close>.\<close>

definition encode :: "nat \<Rightarrow> Bloom list \<Rightarrow> Fragment list" where
  "encode size' blooms =
     addBlooms 0 blooms (replicate BloomBitLength (replicate (fragmentLength size') 0))"

section \<open>Section indexer\<close>

text \<open>Modelled from the spec: a block of the canonical chain, as far as the indexer
  reads it: its hash and its bloom filter. A chain is the list of its blocks; the
  block number is the position.\<close>

record Block =
  blockHash :: Hash
  blockBloom :: Bloom

type_synonym Chain = "Block list"

text \<open>Modelled from the spec: the state the section indexer owns (section 3, section 4.2):
  sections \<open>0..<stored\<close> are \<open>Stored\<close>, each with a completion checkpoint
  \<open>(sectionIndex, headHash)\<close>; fragments are kept under the key
  \<open>(bitIndex, sectionIndex, headHashTag)\<close> (section 6).\<close>

record SectionIndexer =
  secSize :: nat
  confirmationDepth :: nat
  stored :: nat
  checkpoints :: "nat \<rightharpoonup> Hash"
  fragments :: "(nat \<times> nat \<times> Hash) \<rightharpoonup> Fragment"

text \<open>Modelled from the spec: an indexer that has stored nothing yet.\<close>

definition newIndexer :: "nat \<Rightarrow> nat \<Rightarrow> SectionIndexer" where
  "newIndexer size' depth =
     \<lparr>secSize = size', confirmationDepth = depth, stored = 0, checkpoints = Map.empty,
      fragments = Map.empty\<rparr>"

text \<open>Modelled from the spec: the bloom filters of section \<open>s\<close>, the blocks
  \<open>s*sectionSize .. s*sectionSize + sectionSize - 1\<close>, in ascending order.\<close>

definition sectionBlooms :: "nat \<Rightarrow> Chain \<Rightarrow> nat \<Rightarrow> Bloom list" where
  "sectionBlooms size' chain s = map blockBloom (take size' (drop (s * size') chain))"

text \<open>Modelled from the spec: the hash of the section's final block, the tag of its
  fragments; there is none while the chain does not contain the whole section.\<close>

definition sectionHead :: "nat \<Rightarrow> Chain \<Rightarrow> nat \<Rightarrow> Hash option" where
  "sectionHead size' chain s =
     (if 0 < size' \<and> Suc s * size' \<le> length chain
      then Some (blockHash (chain ! (Suc s * size' - 1))) else None)"

text \<open>Modelled from the spec: persisting one plane of a section under its key.\<close>

definition writePlane :: "nat \<Rightarrow> Hash \<Rightarrow> Fragment list \<Rightarrow> SectionIndexer \<Rightarrow> nat \<Rightarrow> SectionIndexer" where
  "writePlane s h planes st b = st\<lparr>fragments := (fragments st)((b, s, h) \<mapsto> planes ! b)\<rparr>"

text \<open>Modelled from the spec: persisting the completion checkpoint
  \<open>(sectionIndex, headHash)\<close>, which makes the section \<open>Stored\<close>.\<close>

definition commitSection :: "nat \<Rightarrow> Hash \<Rightarrow> SectionIndexer \<Rightarrow> SectionIndexer" where
  "commitSection s h st = st\<lparr>checkpoints := (checkpoints st)(s \<mapsto> h), stored := Suc s\<rparr>"

text \<open>Modelled from the spec: processing one section streams its blocks' bloom
  filters through the codec and persists all 2048 fragments plus the checkpoint.
  A section the chain does not contain yet stays unfinished.\<close>

definition processSection :: "Chain \<Rightarrow> SectionIndexer \<Rightarrow> nat \<Rightarrow> SectionIndexer" where
  "processSection chain st s =
     (case sectionHead (secSize st) chain s of
        None \<Rightarrow> st
      | Some h \<Rightarrow>
          commitSection s h
            (foldl (writePlane s h (encode (secSize st) (sectionBlooms (secSize st) chain s)))
               st [0..<BloomBitLength]))"

text \<open>Modelled from the spec: the number of sections whose last block has at least
  \<open>confirmationDepth\<close> confirmations under the head of the chain.\<close>

definition knownSections :: "SectionIndexer \<Rightarrow> Chain \<Rightarrow> nat" where
  "knownSections st chain = (length chain - confirmationDepth st) div secSize st"

text \<open>Modelled from the spec: on a new canonical head, the sections from the last
  stored one up to the highest confirmed one are processed in increasing order.\<close>

definition newHead :: "Chain \<Rightarrow> SectionIndexer \<Rightarrow> SectionIndexer" where
  "newHead chain st = foldl (processSection chain) st [stored st..<knownSections st chain]"

text \<open>Modelled from the spec: on a reorg with common ancestor \<open>N\<close>, every section
  whose range extends beyond \<open>N\<close> is invalidated: its checkpoint is deleted and it is
  no longer \<open>Stored\<close>; its fragments are retained until overwritten. The sections
  \<open>s < (N+1)/sectionSize\<close> are those that lie entirely at or below \<open>N\<close>.\<close>

definition reorg :: "nat \<Rightarrow> SectionIndexer \<Rightarrow> SectionIndexer" where
  "reorg N st =
     (let valid = Suc N div secSize st in
      st\<lparr>stored := min (stored st) valid,
         checkpoints := (\<lambda>s. if s < valid then checkpoints st s else None)\<rparr>)"

text \<open>Modelled from the spec: the local-store adapter of the retrieval backend
  interface (section 4.3). A fragment is available when its section's checkpoint is
  written, the checkpoint's head hash still matches the canonical chain, and the
  fragment is persisted under that tag; otherwise it is not available.\<close>

definition localFetch :: "Chain \<Rightarrow> SectionIndexer \<Rightarrow> nat \<Rightarrow> nat \<Rightarrow> Fragment option" where
  "localFetch chain st b s =
     (case checkpoints st s of
        None \<Rightarrow> None
      | Some h \<Rightarrow> if sectionHead (secSize st) chain s = Some h then fragments st (b, s, h) else None)"

text \<open>Modelled from the spec: a section is indexed for a chain when its checkpoint
  carries the chain's head hash of the section and all 2048 fragments are stored
  under that tag and are the codec's output on the chain's bloom filters.\<close>

definition indexed :: "Chain \<Rightarrow> SectionIndexer \<Rightarrow> nat \<Rightarrow> bool" where
  "indexed chain st s =
     (\<exists>h. sectionHead (secSize st) chain s = Some h \<and> checkpoints st s = Some h \<and>
          (\<forall>b < BloomBitLength. fragments st (b, s, h)
              = Some (encode (secSize st) (sectionBlooms (secSize st) chain s) ! b)))"

section \<open>The section indexer as a process\<close>

text \<open>Modelled from the spec: the indexer while it runs (section 4.2, section 5). At
  most one section is in flight; \<open>inflight\<close> holds its index, its head-hash tag, the
  planes the codec produced for it and the number of planes already persisted.
  \<open>closing\<close> is set once \<open>Close()\<close> has been called.\<close>

record IndexerProc =
  idx :: SectionIndexer
  inflight :: "(nat \<times> Hash \<times> Fragment list \<times> nat) option"
  closing :: bool

text \<open>Modelled from the spec: what can happen to the indexer. A new canonical head
  and a reorg come from the chain; \<open>WriteNext\<close> persists the next plane of the section
  in flight, \<open>Commit\<close> persists its checkpoint, \<open>Abort\<close> is a processing failure or an
  abandoned unit; \<open>CloseEvent\<close> is the call of \<open>Close()\<close>.\<close>

datatype IndexerEvent =
    HeadEvent Chain
  | WriteNext
  | Commit
  | Abort
  | ReorgEvent nat
  | CloseEvent


text \<open>Modelled from the spec: one step of the indexer (\<open>Empty \<rightarrow> Processing \<rightarrow> Stored\<close>
  with the back edge on invalidation). A head starts the next section when it is
  confirmed, nothing is in flight and \<open>Close()\<close> has not been called; the 2048 planes
  are persisted one by one and the checkpoint only after the last; a failed unit
  leaves the section unfinished; a reorg invalidates the stored and in-flight
  sections beyond the common ancestor; after \<open>Close()\<close> no chain event is accepted.\<close>

fun step :: "IndexerEvent \<Rightarrow> IndexerProc \<Rightarrow> IndexerProc" where
  "step (HeadEvent chain) p =
     (if closing p \<or> inflight p \<noteq> None \<or> \<not> stored (idx p) < knownSections (idx p) chain then p
      else (case sectionHead (secSize (idx p)) chain (stored (idx p)) of
              None \<Rightarrow> p
            | Some h \<Rightarrow>
                p\<lparr>inflight :=
                    Some (stored (idx p), h,
                          encode (secSize (idx p)) (sectionBlooms (secSize (idx p)) chain (stored (idx p))),
                          0)\<rparr>))"
| "step WriteNext p =
     (case inflight p of
        None \<Rightarrow> p
      | Some (s, h, planes, k) \<Rightarrow>
          if k < BloomBitLength
          then p\<lparr>idx := writePlane s h planes (idx p) k, inflight := Some (s, h, planes, Suc k)\<rparr>
          else p)"
| "step Commit p =
     (case inflight p of
        None \<Rightarrow> p
      | Some (s, h, planes, k) \<Rightarrow>
          if k = BloomBitLength then p\<lparr>idx := commitSection s h (idx p), inflight := None\<rparr> else p)"
| "step Abort p = p\<lparr>inflight := None\<rparr>"
| "step (ReorgEvent N) p =
     (if closing p then p
      else p\<lparr>idx := reorg N (idx p),
             inflight := (case inflight p of
                            None \<Rightarrow> None
                          | Some (s, h, planes, k) \<Rightarrow>
                              if s < Suc N div secSize (idx p) then Some (s, h, planes, k) else None)\<rparr>)"
| "step CloseEvent p = p\<lparr>closing := True\<rparr>"

text \<open>Modelled from the spec: the indexer is a single sequential task; a run is a
  sequence of events.\<close>

definition run :: "IndexerEvent list \<Rightarrow> IndexerProc \<Rightarrow> IndexerProc" where
  "run evs p = foldl (\<lambda>p e. step e p) p evs"


section \<open>Matcher and matcher session\<close>

text \<open>Modelled from the spec: a filter query is an ordered list of OR-groups, each a
  collection of bit positions; the empty group is the wildcard (section 3).\<close>

type_synonym Query = "nat list list"

text \<open>Modelled from the spec: the retrieval backend, \<open>fetch (bitIndex, sectionIndex)\<close>
  giving the fragment bytes or "not available".\<close>

type_synonym Backend = "nat \<Rightarrow> nat \<Rightarrow> Fragment option"

text \<open>Modelled from the spec: a query whose fragments could not be obtained ends
  with "query incomplete at block X" (section 7).\<close>

datatype SessionError = QueryIncomplete nat

text \<open>Modelled from the spec: the fragments a section's evaluation requests, only
  the bit planes the query refers to; wildcard groups need none.\<close>

definition neededBits :: "Query \<Rightarrow> nat list" where
  "neededBits q = remdups (concat q)"

text \<open>Modelled from the spec: at a block offset, a group holds when at least one
  requested bit plane has that offset's bit set; a wildcard group never excludes.\<close>

definition groupMatches :: "Backend \<Rightarrow> nat \<Rightarrow> nat \<Rightarrow> nat list \<Rightarrow> bool" where
  "groupMatches fetch s off g =
     (g = [] \<or> list_ex (\<lambda>p. case fetch p s of Some frag \<Rightarrow> testBit frag off | None \<Rightarrow> False) g)"

text \<open>Modelled from the spec: groups are ANDed.\<close>

definition blockMatches :: "Backend \<Rightarrow> nat \<Rightarrow> nat \<Rightarrow> Query \<Rightarrow> bool" where
  "blockMatches fetch s off q = list_all (groupMatches fetch s off) q"

text \<open>Modelled from the spec: evaluating one section (section 4.5, steps 1 to 3): request
  the fragments needed, fail with "query incomplete" when one is not available,
  else emit the matching block numbers of the section that lie in
  \<open>[startBlock, endBlock]\<close>, in ascending order.\<close>

definition matchSection ::
  "Backend \<Rightarrow> nat \<Rightarrow> Query \<Rightarrow> nat \<Rightarrow> nat \<Rightarrow> nat \<Rightarrow> SessionError + nat list" where
  "matchSection fetch size' q start end' s =
     (if list_ex (\<lambda>p. fetch p s = None) (neededBits q)
      then Inl (QueryIncomplete (max start (s * size')))
      else Inr (filter (\<lambda>b. start \<le> b \<and> b \<le> end' \<and> blockMatches fetch s (b - s * size') q)
                  [s * size'..<Suc s * size']))"

text \<open>Modelled from the spec: the session evaluates section by section and stops
  at the first section that fails, keeping what it has emitted (a partial result).\<close>

fun runSections ::
  "Backend \<Rightarrow> nat \<Rightarrow> Query \<Rightarrow> nat \<Rightarrow> nat \<Rightarrow> nat list \<Rightarrow> nat list \<times> SessionError option" where
  "runSections fetch size' q start end' [] = ([], None)"
| "runSections fetch size' q start end' (s # ss) =
     (case matchSection fetch size' q start end' s of
        Inl e \<Rightarrow> ([], Some e)
      | Inr ms \<Rightarrow>
          (case runSections fetch size' q start end' ss of (rest, err) \<Rightarrow> (ms @ rest, err)))"

text \<open>Modelled from the spec: a session over \<open>[startBlock, endBlock]\<close>, oldest section
  first: the sequence of matching block numbers it produces when run to its end,
  and the error it ended with, if any.\<close>

definition runSession ::
  "Backend \<Rightarrow> nat \<Rightarrow> Query \<Rightarrow> nat \<Rightarrow> nat \<Rightarrow> nat list \<times> SessionError option" where
  "runSession fetch size' q start end' =
     runSections fetch size' q start end' [start div size'..<Suc (end' div size')]"

text \<open>Modelled from the spec: the ground truth of section 3 on a block's own bloom filter,
  independent of the index: every group is the wildcard or has one of its bit
  positions set in the filter.\<close>

definition bloomMatches :: "Bloom \<Rightarrow> Query \<Rightarrow> bool" where
  "bloomMatches bl q = list_all (\<lambda>g. g = [] \<or> list_ex (\<lambda>p. bit bl p) g) q"

text \<open>The condition of the query-correctness property as the spec words it in section 8,
  with no exception for the empty group: every OR-group has at least one of its bit
  positions set in the block's filter.\<close>

definition everyGroupHasSetBit :: "Bloom \<Rightarrow> Query \<Rightarrow> bool" where
  "everyGroupHasSetBit bl q = list_all (\<lambda>g. list_ex (\<lambda>p. bit bl p) g) q"

section \<open>The matcher session as a process\<close>

text \<open>Modelled from the spec: where a session stands (section 4.5, section 5): at a
  section boundary, awaiting the scheduler's fulfilment of the current section's
  fragment requests, handing out the results of the current section, or done.\<close>

datatype Phase = Boundary | Awaiting nat | Emitting "nat list" | Done

text \<open>Modelled from the spec: the match session (section 3) owns the compiled query,
  the outstanding-request count, the cancellation flag and the section cursor;
  \<open>emitted\<close> is the sequence of block numbers handed out so far and \<open>requested\<close> the
  fragment requests issued to the scheduler so far.\<close>

record Session =
  query :: Query
  secLen :: nat
  startBlock :: nat
  endBlock :: nat
  cursor :: "nat list"
  phase :: Phase
  outstanding :: nat
  cancelled :: bool
  emitted :: "nat list"
  requested :: "(nat \<times> nat) list"
  sessionErr :: "SessionError option"

text \<open>Modelled from the spec: what happens to a session: it advances at a section
  boundary, the scheduler delivers the fragments it awaits, \<open>Next()\<close> hands out one
  result, \<open>Close()\<close> cancels it.\<close>

datatype SessionEvent = Advance | Deliver | Next | Cancel

text \<open>Modelled from the spec: \<open>NewSession(filterQuery, startBlock, endBlock)\<close> for
  the ascending direction: the cursor runs over the sections of the range, oldest
  first.\<close>

definition NewSession :: "Query \<Rightarrow> nat \<Rightarrow> nat \<Rightarrow> nat \<Rightarrow> Session" where
  "NewSession q size' start end' =
     \<lparr>query = q, secLen = size', startBlock = start, endBlock = end',
      cursor = [start div size'..<Suc (end' div size')], phase = Boundary, outstanding = 0,
      cancelled = False, emitted = [], requested = [], sessionErr = None\<rparr>"

text \<open>Modelled from the spec: one step of a session. Cancellation is cooperative,
  checked between sections and before each new fragment-request batch; a delivery to
  a cancelled session is dropped; a section whose fragments are not available ends
  the session with "query incomplete"; cancelling releases the outstanding
  requests.\<close>

fun sessionStep :: "Backend \<Rightarrow> SessionEvent \<Rightarrow> Session \<Rightarrow> Session" where
  "sessionStep fetch Advance s =
     (if phase s \<noteq> Boundary then s
      else if cancelled s then s\<lparr>phase := Done\<rparr>
      else (case cursor s of
              [] \<Rightarrow> s\<lparr>phase := Done\<rparr>
            | sec # rest \<Rightarrow>
                s\<lparr>cursor := rest, phase := Awaiting sec,
                  requested := requested s @ map (\<lambda>b. (b, sec)) (neededBits (query s)),
                  outstanding := length (neededBits (query s))\<rparr>))"
| "sessionStep fetch Deliver s =
     (case phase s of
        Awaiting sec \<Rightarrow>
          if cancelled s then s\<lparr>phase := Done, outstanding := 0\<rparr>
          else (case matchSection fetch (secLen s) (query s) (startBlock s) (endBlock s) sec of
                  Inl e \<Rightarrow> s\<lparr>phase := Done, outstanding := 0, sessionErr := Some e\<rparr>
                | Inr ms \<Rightarrow> s\<lparr>phase := Emitting ms, outstanding := 0\<rparr>)
      | _ \<Rightarrow> s)"
| "sessionStep fetch Next s =
     (case phase s of
        Emitting ms \<Rightarrow>
          (case ms of
             [] \<Rightarrow> s\<lparr>phase := Boundary\<rparr>
           | m # rest \<Rightarrow> s\<lparr>emitted := emitted s @ [m], phase := Emitting rest\<rparr>)
      | _ \<Rightarrow> s)"
| "sessionStep fetch Cancel s = s\<lparr>cancelled := True, outstanding := 0\<rparr>"

text \<open>Modelled from the spec: a session's life is a sequence of such events.\<close>

definition sessionRun :: "Backend \<Rightarrow> SessionEvent list \<Rightarrow> Session \<Rightarrow> Session" where
  "sessionRun fetch evs s = foldl (\<lambda>s e. sessionStep fetch e s) s evs"

text \<open>The results of the current section that are not handed out yet.\<close>

fun pending :: "Phase \<Rightarrow> nat list" where
  "pending (Emitting ms) = ms"
| "pending _ = []"

text \<open>
  The invariant of a session over an indexed chain: its parameters do not change,
  every section it still has to evaluate or awaits is indexed, and every result
  handed out or pending is a block of the range that matches on its own bloom filter.
\<close>

definition sessionInv ::
  "Chain \<Rightarrow> SectionIndexer \<Rightarrow> Query \<Rightarrow> nat \<Rightarrow> nat \<Rightarrow> Session \<Rightarrow> bool" where
  "sessionInv chain st q start end' s =
     (query s = q \<and> secLen s = secSize st \<and> startBlock s = start \<and> endBlock s = end' \<and>
      (\<forall>sec\<in>set (cursor s). indexed chain st sec) \<and>
      (\<forall>sec. phase s = Awaiting sec \<longrightarrow> indexed chain st sec) \<and>
      (\<forall>b\<in>set (emitted s) \<union> set (pending (phase s)).
          start \<le> b \<and> b \<le> end' \<and> bloomMatches (blockBloom (chain ! b)) q))"

section \<open>Concrete nodes\<close>

text \<open>
  A world in which every collaborator succeeds (\<open>LightSync = 2\<close> and the valid modes
  \<open>0..2\<close> as in the downloader), a configuration for each sync mode, the node \<open>New\<close>
  builds there with the effects it logs, and an indexer that has stored two sections.
\<close>

definition example_world :: World where
  "example_world =
     \<lparr>LightSync = 2, IsValid = (\<lambda>m. 0 \<le> m \<and> m \<le> 2), BloomBitsBlocks = 4096,
      BloomTrieFrequency = 32768, BlockChainVersion = 3,
      OpenDatabase = (\<lambda>name. Inr 1),
      SetupGenesisBlock = (\<lambda>db. (7, 0, None)),
      ReadDatabaseVersion = (\<lambda>db. 3),
      NewBlockChain = (\<lambda>db cc. Inr 11),
      NewProtocolManager = (\<lambda>cc m n. Inr 12)\<rparr>"

definition example_config :: "SyncMode \<Rightarrow> Config" where
  "example_config m = \<lparr>NetworkId = 1, SyncMode = m, SkipBcVersionCheck = False, GasPrice = 18000000000\<rparr>"

definition example_indexer :: ChainIndexer where
  "example_indexer =
     \<lparr>sectionSize = 4096, storedSections = 2, lastHead = 8191, hasCheckpoint = True,
      active = True\<rparr>"

definition example_node :: Atlantis where
  "example_node =
     \<lparr>config = example_config 1, chainConfig = 7, chainDb = 1, networkId = 1,
      gasPrice = 18000000000, bloomRequests = 0,
      bloomIndexer = Some (Start (NewBloomIndexer 1 4096)),
      blockchain = Some 11, protocolManager = Some 12, lesServer = None\<rparr>"

definition example_effects :: "effect list" where
  "example_effects =
     [Eff_OpenDatabase ''chaindata'', Eff_SetupGenesisBlock 1, Eff_CreateConsensusEngine,
      Eff_MakeShutdownChan, Eff_MakeBloomRequests, Eff_NewBloomIndexer 1 4096,
      Eff_WriteDatabaseVersion 3, Eff_NewBlockChain, Eff_IndexerStart, Eff_NewTxPool,
      Eff_NewProtocolManager, Eff_NewMiner, Eff_NewOracle]"

text \<open>
  The chain of the spec's concrete scenario: blocks 0 to 3 with bloom bits \<open>{5}\<close>,
  \<open>{}\<close>, \<open>{5,9}\<close>, \<open>{9}\<close>. \<open>old_chain\<close> extends it to two sections of four blocks;
  \<open>new_chain\<close> shares blocks 0 to 5 with it and replaces blocks 6 and 7.
\<close>

definition scenario_chain :: Chain where
  "scenario_chain =
     [\<lparr>blockHash = 100, blockBloom = 32\<rparr>, \<lparr>blockHash = 101, blockBloom = 0\<rparr>,
      \<lparr>blockHash = 102, blockBloom = 544\<rparr>, \<lparr>blockHash = 103, blockBloom = 512\<rparr>]"

definition old_chain :: Chain where
  "old_chain = scenario_chain @
     [\<lparr>blockHash = 104, blockBloom = 1\<rparr>, \<lparr>blockHash = 105, blockBloom = 2\<rparr>,
      \<lparr>blockHash = 106, blockBloom = 4\<rparr>, \<lparr>blockHash = 107, blockBloom = 8\<rparr>]"

definition new_chain :: Chain where
  "new_chain = take 6 old_chain @
     [\<lparr>blockHash = 206, blockBloom = 16\<rparr>, \<lparr>blockHash = 207, blockBloom = 64\<rparr>]"



text \<open>
  A session for the query \<open>[{5}]\<close> over the two sections of \<open>old_chain\<close>: it has handed
  out block 0 of section 0 when it is cancelled, and is then driven on.
\<close>

definition session_backend :: Backend where
  "session_backend = localFetch old_chain (newHead old_chain (newIndexer 4 0))"

definition session_before :: Session where
  "session_before =
     sessionRun session_backend [Advance, Deliver, Next] (NewSession [[5]] 4 0 7)"

definition session_after :: Session where
  "session_after =
     sessionRun session_backend [Next, Next, Advance, Deliver, Next]
       (sessionStep session_backend Cancel session_before)"

section \<open>The node constructor\<close>

text \<open>
  C8. When \<open>config.SyncMode\<close> equals \<open>LightSync\<close>, or when the sync mode is not
  valid, \<open>New\<close> returns an error and no service object, and its effect log is empty:
  it has not opened the chain database, made the bloom-request channel or built the
  bloom indexer.
\<close>

theorem New_sync_mode_errors:
  assumes "SyncMode cfg = LightSync w \<or> \<not> IsValid w (SyncMode cfg)"
  shows "New w cfg =
           (Inl (if SyncMode cfg = LightSync w then ErrLightSyncMode
                 else ErrInvalidSyncMode (SyncMode cfg)), [])"
  using assms by (auto simp: New_def)

theorem New_sync_mode_errors_witness:
  "New example_world (example_config 2) = (Inl ErrLightSyncMode, []) \<and>
   New example_world (example_config 7) = (Inl (ErrInvalidSyncMode 7), [])"
  using New_sync_mode_errors [of "example_config 2" example_world]
        New_sync_mode_errors [of "example_config 7" example_world]
  by (simp add: example_world_def example_config_def)

lemma New_ok_indexer:
  assumes "New w cfg = (Inr ath, effs)"
  shows "bloomIndexer ath = Some (Start (NewBloomIndexer (chainDb ath) (BloomBitsBlocks w)))
         \<and> Eff_NewBloomIndexer (chainDb ath) (BloomBitsBlocks w) \<in> set effs"
  using assms
  by (auto simp: New_def Let_def
      split: if_splits sum.splits option.splits prod.splits GenesisErr.splits)

text \<open>
  C9. For every node that \<open>New\<close> constructs successfully, the first component of
  \<open>EthAPIBackend.BloomStatus\<close> is the section size of the node's bloom indexer, which
  is the size \<open>New\<close> passed to \<open>NewBloomIndexer\<close> on the node's chain database.
\<close>

theorem BloomStatus_size_is_indexer_size:
  assumes "New w cfg = (Inr ath, effs)"
  shows "\<exists>ix sections. bloomIndexer ath = Some ix
           \<and> Eff_NewBloomIndexer (chainDb ath) (sectionSize ix) \<in> set effs
           \<and> EthAPIBackend_BloomStatus w ath = Inr (sectionSize ix, sections)"
  using New_ok_indexer [OF assms]
  by (simp add: EthAPIBackend_BloomStatus_def deref_def Sections_def Start_def
      NewBloomIndexer_def)

theorem BloomStatus_size_is_indexer_size_witness:
  "New example_world (example_config 1) = (Inr example_node, example_effects) \<and>
   (\<exists>ix sections. bloomIndexer example_node = Some ix
           \<and> Eff_NewBloomIndexer (chainDb example_node) (sectionSize ix) \<in> set example_effects
           \<and> EthAPIBackend_BloomStatus example_world example_node = Inr (sectionSize ix, sections))"
proof -
  have ok: "New example_world (example_config 1) = (Inr example_node, example_effects)"
    by (simp add: New_def example_world_def example_config_def example_node_def
        example_effects_def)
  from BloomStatus_size_is_indexer_size [OF ok] ok show ?thesis by simp
qed

section \<open>The status API\<close>

text \<open>
  C10. \<open>LesApiBackend.BloomStatus\<close> never fails: with a nil bloom indexer it returns
  \<open>(0, 0)\<close> without dereferencing it, and otherwise it returns
  \<open>(light.BloomTrieFrequency, storedSections)\<close>, where \<open>storedSections\<close> is the first
  component of the indexer's \<open>Sections()\<close>.
\<close>

theorem LesApiBackend_BloomStatus_total:
  "LesApiBackend_BloomStatus w ath =
     Inr (case l_bloomIndexer ath of None \<Rightarrow> (0, 0)
          | Some ix \<Rightarrow> (BloomTrieFrequency w, fst (Sections ix)))"
  by (simp add: LesApiBackend_BloomStatus_def deref_def Sections_def split: option.splits)

text \<open>
  C3, as stated, fails: on a full node whose indexer has stored 2 sections of 4096
  blocks, with last indexed head 8191, \<open>EthAPIBackend.BloomStatus\<close> returns
  \<open>(4096, 2)\<close>, not \<open>(storedSections, lastHead) = (2, 8191)\<close>.
\<close>

theorem BloomStatus_counterexample:
  "bloomIndexer (example_node\<lparr>bloomIndexer := Some example_indexer\<rparr>) = Some example_indexer \<and>
   Sections example_indexer = (2, 8191, True) \<and>
   EthAPIBackend_BloomStatus example_world (example_node\<lparr>bloomIndexer := Some example_indexer\<rparr>)
     = Inr (4096, 2) \<and>
   EthAPIBackend_BloomStatus example_world (example_node\<lparr>bloomIndexer := Some example_indexer\<rparr>)
     \<noteq> Inr (fst (Sections example_indexer), fst (snd (Sections example_indexer)))"
  by (simp add: EthAPIBackend_BloomStatus_def deref_def Sections_def example_indexer_def
      example_world_def)

text \<open>
  C3, amended. For every node state with a bloom indexer, the status API returns the
  pair (section size, storedSections): \<open>EthAPIBackend.BloomStatus\<close> returns
  \<open>(params.BloomBitsBlocks, storedSections)\<close> and \<open>LesApiBackend.BloomStatus\<close> returns
  \<open>(light.BloomTrieFrequency, storedSections)\<close>, where \<open>storedSections\<close> is the number
  of completely stored sections reported by the indexer's \<open>Sections()\<close>. The last
  indexed head is not part of the result: changing it does not change the result.
\<close>

theorem BloomStatus_size_and_stored_sections:
  "EthAPIBackend_BloomStatus w (ath\<lparr>bloomIndexer := Some ix\<rparr>)
     = Inr (BloomBitsBlocks w, fst (Sections ix)) \<and>
   LesApiBackend_BloomStatus w (lath\<lparr>l_bloomIndexer := Some ix\<rparr>)
     = Inr (BloomTrieFrequency w, fst (Sections ix)) \<and>
   EthAPIBackend_BloomStatus w (ath\<lparr>bloomIndexer := Some (ix\<lparr>lastHead := h\<rparr>)\<rparr>)
     = EthAPIBackend_BloomStatus w (ath\<lparr>bloomIndexer := Some ix\<rparr>)"
  by (simp add: EthAPIBackend_BloomStatus_def LesApiBackend_BloomStatus_def deref_def
      Sections_def)

section \<open>The bit-plane codec: encoding and testing\<close>

lemma and_bitMask: "(w AND bitMask off \<noteq> 0) = bit w (7 - off mod 8)"
  by (simp add: bitMask_def bit_iff_and_push_bit_not_eq_0)

lemma bit_or_bitMask: "bit (w OR bitMask off) n = (bit w n \<or> n = 7 - off mod 8)"
  by (auto simp: bitMask_def bit_simps)

lemma length_setBit [simp]: "length (setBit frag off) = length frag"
  by (simp add: setBit_def)

lemma testBit_setBit:
  assumes "off div 8 < length frag"
  shows "testBit (setBit frag off) j = (j = off \<or> testBit frag j)"
proof (cases "j div 8 = off div 8")
  case True
  have "(7 - j mod 8 = 7 - off mod 8) = (j = off)"
  proof -
    have "j mod 8 < 8" "off mod 8 < 8" by simp_all
    then have "(7 - j mod 8 = 7 - off mod 8) = (j mod 8 = off mod 8)" by arith
    also have "\<dots> = (j = off)" using True by (metis div_mult_mod_eq)
    finally show ?thesis .
  qed
  with True assms show ?thesis
    by (auto simp: testBit_def setBit_def and_bitMask bit_or_bitMask)
next
  case False
  then have "j \<noteq> off" by auto
  with False show ?thesis
    by (simp add: testBit_def setBit_def and_bitMask)
qed

lemma length_addBloom [simp]: "length (addBloom off b planes) = length planes"
  by (simp add: addBloom_def)

lemma nth_addBloom:
  "k < length planes \<Longrightarrow>
   addBloom off b planes ! k = (if bit b k then setBit (planes ! k) off else planes ! k)"
  by (simp add: addBloom_def)

lemma length_addBlooms [simp]: "length (addBlooms off bs planes) = length planes"
  by (induction off bs planes rule: addBlooms.induct) simp_all

lemma length_nth_addBlooms:
  "k < length planes \<Longrightarrow> length (addBlooms off bs planes ! k) = length (planes ! k)"
  by (induction off bs planes rule: addBlooms.induct) (simp_all add: nth_addBloom)

lemma testBit_addBlooms:
  assumes "k < length planes" "off + length bs \<le> 8 * length (planes ! k)"
  shows "testBit (addBlooms off bs planes ! k) j =
           (testBit (planes ! k) j \<or> (off \<le> j \<and> j < off + length bs \<and> bit (bs ! (j - off)) k))"
  using assms
proof (induction off bs planes rule: addBlooms.induct)
  case (1 off planes)
  then show ?case by auto
next
  case (2 off b bs planes)
  have inr: "off div 8 < length (planes ! k)" using "2.prems" by simp
  have len: "length (addBloom off b planes ! k) = length (planes ! k)"
    using "2.prems" by (simp add: nth_addBloom)
  have step: "testBit (addBloom off b planes ! k) j = (testBit (planes ! k) j \<or> (j = off \<and> bit b k))"
    using "2.prems" inr by (auto simp: nth_addBloom testBit_setBit)
  have "testBit (addBlooms (Suc off) bs (addBloom off b planes) ! k) j =
          (testBit (addBloom off b planes ! k) j \<or>
           (Suc off \<le> j \<and> j < Suc off + length bs \<and> bit (bs ! (j - Suc off)) k))"
    using "2.prems" len by (intro "2.IH") simp_all
  also have "\<dots> = (testBit (planes ! k) j \<or>
           (off \<le> j \<and> j < off + length (b # bs) \<and> bit ((b # bs) ! (j - off)) k))"
  proof (cases "j = off")
    case True
    with step show ?thesis by simp
  next
    case False
    with step show ?thesis by (auto simp: nth_Cons' Suc_diff_Suc less_Suc_eq_le)
  qed
  finally show ?case by simp
qed

lemma testBit_zero: "testBit (replicate n 0) j = False"
  by (simp add: testBit_def)

lemma length_encode: "length (encode size' blooms) = BloomBitLength"
  by (simp add: encode_def)

lemma length_nth_encode:
  "k < BloomBitLength \<Longrightarrow> length (encode size' blooms ! k) = fragmentLength size'"
  by (simp add: encode_def length_nth_addBlooms)

lemma testBit_encode:
  assumes "length blooms \<le> size'" "bitIndex < BloomBitLength"
  shows "testBit (encode size' blooms ! bitIndex) i =
           (i < length blooms \<and> bit (blooms ! i) bitIndex)"
proof -
  have "length blooms \<le> 8 * fragmentLength size'"
    using assms(1) by (simp add: fragmentLength_def)
  then show ?thesis
    using assms(2) by (simp add: encode_def testBit_addBlooms testBit_zero)
qed

text \<open>
  C2. For every sequence of per-block bloom filters forming one section, every
  \<open>bitIndex\<close> in \<open>[0,2047]\<close> and every block offset \<open>i\<close> below the section size:
  byte \<open>i/8\<close> exists in the fragment the codec produces for \<open>bitIndex\<close>, and testing
  bit \<open>i%8\<close> of that byte returns set exactly when the \<open>i\<close>-th block's bloom filter
  has \<open>bitIndex\<close> set.
\<close>

theorem encode_testBit_roundtrip:
  assumes "length blooms = size'" "bitIndex < 2048" "i < size'"
  shows "i div 8 < length (encode size' blooms ! bitIndex)
       \<and> ((encode size' blooms ! bitIndex) ! (i div 8) AND push_bit (7 - i mod 8) 1 \<noteq> 0)
           = bit (blooms ! i) bitIndex
       \<and> testBit (encode size' blooms ! bitIndex) i = bit (blooms ! i) bitIndex"
proof -
  have b: "bitIndex < BloomBitLength" using assms(2) by (simp add: BloomBitLength_def)
  have t: "testBit (encode size' blooms ! bitIndex) i = bit (blooms ! i) bitIndex"
    using testBit_encode [of blooms size' bitIndex i] assms(1,3) b by simp
  have l: "i div 8 < length (encode size' blooms ! bitIndex)"
    using assms(3) by (simp add: length_nth_encode [OF b] fragmentLength_def)
  from t l show ?thesis by (simp add: testBit_def bitMask_def)
qed

theorem encode_testBit_roundtrip_witness:
  "length [32, 0, 544, 512 :: Bloom] = 4 \<and> (5::nat) < 2048 \<and> (2::nat) < 4
   \<and> testBit (encode 4 [32, 0, 544, 512] ! 5) 2
   \<and> \<not> testBit (encode 4 [32, 0, 544, 512] ! 5) 1"
proof -
  have l: "length [32, 0, 544, 512 :: Bloom] = 4" by simp
  have b: "(5::nat) < 2048" by simp
  have "testBit (encode 4 [32, 0, 544, 512] ! 5) 2 = bit ([32, 0, 544, 512 :: Bloom] ! 2) 5"
    using encode_testBit_roundtrip [OF l b, of 2] by simp
  moreover
  have "testBit (encode 4 [32, 0, 544, 512] ! 5) 1 = bit ([32, 0, 544, 512 :: Bloom] ! 1) 5"
    using encode_testBit_roundtrip [OF l b, of 1] by simp
  ultimately show ?thesis by simp
qed

section \<open>The section indexer: processing sections\<close>

lemma writePlanes_fields [simp]:
  "secSize (foldl (writePlane s h planes) st bs) = secSize st"
  "confirmationDepth (foldl (writePlane s h planes) st bs) = confirmationDepth st"
  "stored (foldl (writePlane s h planes) st bs) = stored st"
  "checkpoints (foldl (writePlane s h planes) st bs) = checkpoints st"
  by (induction bs arbitrary: st) (simp_all add: writePlane_def)

lemma writePlanes_fragments:
  "fragments (foldl (writePlane s h planes) st [0..<n]) (b, s', h') =
     (if s' = s \<and> h' = h \<and> b < n then Some (planes ! b) else fragments st (b, s', h'))"
  by (induction n) (auto simp: writePlane_def)

lemma processSection_fields [simp]:
  "secSize (processSection chain st s) = secSize st"
  "confirmationDepth (processSection chain st s) = confirmationDepth st"
  by (simp_all add: processSection_def commitSection_def split: option.splits)

lemma processSection_other:
  "s' \<noteq> s \<Longrightarrow> fragments (processSection chain st s) (b, s', h') = fragments st (b, s', h')"
  "s' \<noteq> s \<Longrightarrow> checkpoints (processSection chain st s) s' = checkpoints st s'"
  by (simp_all add: processSection_def commitSection_def writePlanes_fragments split: option.splits)

lemma processSection_done:
  assumes "sectionHead (secSize st) chain s = Some h"
  shows "checkpoints (processSection chain st s) s = Some h"
    and "stored (processSection chain st s) = Suc s"
    and "b < BloomBitLength \<Longrightarrow> fragments (processSection chain st s) (b, s, h)
           = Some (encode (secSize st) (sectionBlooms (secSize st) chain s) ! b)"
  using assms by (simp_all add: processSection_def commitSection_def writePlanes_fragments)

lemma sectionHead_known:
  assumes "0 < secSize st" "s < knownSections st chain"
  shows "sectionHead (secSize st) chain s \<noteq> None"
proof -
  have "Suc s \<le> (length chain - confirmationDepth st) div secSize st"
    using assms(2) by (simp add: knownSections_def)
  then have "Suc s * secSize st \<le> length chain - confirmationDepth st"
    using assms(1) by (simp add: less_eq_div_iff_mult_less_eq)
  then have "Suc s * secSize st \<le> length chain" by arith
  with assms(1) show ?thesis by (simp add: sectionHead_def)
qed

lemma foldl_process_fields [simp]:
  "secSize (foldl (processSection chain) st ss) = secSize st"
  "confirmationDepth (foldl (processSection chain) st ss) = confirmationDepth st"
  by (induction ss arbitrary: st) simp_all

lemma foldl_process_other:
  "s \<notin> set ss \<Longrightarrow>
   fragments (foldl (processSection chain) st ss) (b, s, h) = fragments st (b, s, h) \<and>
   checkpoints (foldl (processSection chain) st ss) s = checkpoints st s"
  by (induction ss arbitrary: st) (auto simp: processSection_other)

lemma foldl_process_stored:
  assumes "0 < secSize st" "k \<le> knownSections st chain" "a \<le> k"
  shows "stored (foldl (processSection chain) st [a..<k]) = (if a < k then k else stored st)"
  using assms
proof (induction k)
  case 0
  then show ?case by simp
next
  case (Suc k)
  show ?case
  proof (cases "a = Suc k")
    case True
    then show ?thesis by simp
  next
    case False
    with Suc.prems have "a \<le> k" by simp
    obtain h where h: "sectionHead (secSize st) chain k = Some h"
      using sectionHead_known [of st k chain] Suc.prems by auto
    show ?thesis using \<open>a \<le> k\<close> h
      by (simp add: processSection_done)
  qed
qed

lemma foldl_process_section:
  assumes "sectionHead (secSize st) chain s = Some h" "a \<le> s" "s < k"
  shows "checkpoints (foldl (processSection chain) st [a..<k]) s = Some h"
    and "b < BloomBitLength \<Longrightarrow> fragments (foldl (processSection chain) st [a..<k]) (b, s, h)
           = Some (encode (secSize st) (sectionBlooms (secSize st) chain s) ! b)"
proof -
  have split: "[a..<k] = [a..<s] @ s # [Suc s..<k]"
    using assms(2,3) by (metis le_add_diff_inverse less_imp_le_nat upt_add_eq_append upt_conv_Cons)
  let ?st1 = "foldl (processSection chain) st [a..<s]"
  let ?st2 = "processSection chain ?st1 s"
  have eq: "foldl (processSection chain) st [a..<k] = foldl (processSection chain) ?st2 [Suc s..<k]"
    by (simp add: split)
  have notin: "s \<notin> set [Suc s..<k]" by simp
  have h1: "sectionHead (secSize ?st1) chain s = Some h" using assms(1) by simp
  show "checkpoints (foldl (processSection chain) st [a..<k]) s = Some h"
    using foldl_process_other [OF notin, of chain ?st2] processSection_done(1) [OF h1]
    by (simp add: eq)
  show "fragments (foldl (processSection chain) st [a..<k]) (b, s, h)
           = Some (encode (secSize st) (sectionBlooms (secSize st) chain s) ! b)"
    if "b < BloomBitLength"
    using foldl_process_other [OF notin, of chain ?st2 b h] processSection_done(3) [OF h1 that]
    by (simp add: eq)
qed

lemma newHead_stored:
  assumes "0 < secSize st"
  shows "stored (newHead chain st) = max (stored st) (knownSections st chain)"
proof (cases "stored st \<le> knownSections st chain")
  case True
  then show ?thesis
    using foldl_process_stored [OF assms order_refl True]
    by (auto simp: newHead_def)
next
  case False
  then show ?thesis by (simp add: newHead_def)
qed

lemma newHead_indexed:
  assumes "0 < secSize st" "stored st \<le> s" "s < knownSections st chain"
  shows "indexed chain (newHead chain st) s"
proof -
  obtain h where h: "sectionHead (secSize st) chain s = Some h"
    using sectionHead_known [OF assms(1,3)] by auto
  show ?thesis
    unfolding indexed_def newHead_def
    using foldl_process_section [OF h assms(2,3)] h by auto
qed

lemma newHead_untouched:
  assumes "s < stored st"
  shows "checkpoints (newHead chain st) s = checkpoints st s"
    and "fragments (newHead chain st) (b, s, h) = fragments st (b, s, h)"
  using assms foldl_process_other [of s "[stored st..<knownSections st chain]" chain st b h]
  by (simp_all add: newHead_def)

lemma reorg_fields [simp]:
  "secSize (reorg N st) = secSize st"
  "confirmationDepth (reorg N st) = confirmationDepth st"
  "fragments (reorg N st) = fragments st"
  "stored (reorg N st) = min (stored st) (Suc N div secSize st)"
  "checkpoints (reorg N st) s = (if s < Suc N div secSize st then checkpoints st s else None)"
  by (simp_all add: reorg_def Let_def)

lemma knownSections_reorg [simp]: "knownSections (reorg N st) chain = knownSections st chain"
  by (simp add: knownSections_def)

lemma section_below:
  "0 < n \<Longrightarrow> (Suc s * n \<le> Suc N) = (s < Suc N div n)"
  by (simp add: less_eq_div_iff_mult_less_eq Suc_le_eq [symmetric] del: mult_Suc)

section \<open>The matcher on an indexed chain\<close>

lemma localFetch_indexed:
  assumes "indexed chain st s" "p < BloomBitLength"
  shows "localFetch chain st p s = Some (encode (secSize st) (sectionBlooms (secSize st) chain s) ! p)"
  using assms by (auto simp: indexed_def localFetch_def)

lemma sectionBlooms_nth:
  assumes "sectionHead size' chain s \<noteq> None" "off < size'"
  shows "length (sectionBlooms size' chain s) = size'"
    and "sectionBlooms size' chain s ! off = blockBloom (chain ! (s * size' + off))"
proof -
  have le: "Suc s * size' \<le> length chain"
    using assms(1) by (auto simp: sectionHead_def split: if_splits)
  then have "s * size' + size' \<le> length chain" by (simp add: add.commute)
  then show "length (sectionBlooms size' chain s) = size'"
    by (simp add: sectionBlooms_def)
  from \<open>s * size' + size' \<le> length chain\<close> assms(2)
  show "sectionBlooms size' chain s ! off = blockBloom (chain ! (s * size' + off))"
    by (simp add: sectionBlooms_def)
qed

lemma testBit_indexed:
  assumes "indexed chain st s" "p < BloomBitLength" "off < secSize st"
  shows "testBit (encode (secSize st) (sectionBlooms (secSize st) chain s) ! p) off
           = bit (blockBloom (chain ! (s * secSize st + off))) p"
proof -
  have hd: "sectionHead (secSize st) chain s \<noteq> None"
    using assms(1) by (auto simp: indexed_def)
  show ?thesis
    using sectionBlooms_nth [OF hd assms(3)] assms(2,3)
    by (simp add: testBit_encode)
qed

lemma groupMatches_indexed:
  assumes "indexed chain st s" "\<forall>p\<in>set g. p < BloomBitLength" "off < secSize st"
  shows "groupMatches (localFetch chain st) s off g
           = (g = [] \<or> (\<exists>p\<in>set g. bit (blockBloom (chain ! (s * secSize st + off))) p))"
  using assms
  by (auto simp: groupMatches_def list_ex_iff localFetch_indexed testBit_indexed)

lemma blockMatches_indexed:
  assumes "indexed chain st s" "\<forall>g\<in>set q. \<forall>p\<in>set g. p < BloomBitLength" "off < secSize st"
  shows "blockMatches (localFetch chain st) s off q
           = bloomMatches (blockBloom (chain ! (s * secSize st + off))) q"
  using assms
  by (auto simp: blockMatches_def bloomMatches_def list_all_iff groupMatches_indexed list_ex_iff)

lemma matchSection_indexed:
  assumes "indexed chain st s" "\<forall>g\<in>set q. \<forall>p\<in>set g. p < BloomBitLength"
  shows "matchSection (localFetch chain st) (secSize st) q start end' s =
           Inr (filter (\<lambda>b. start \<le> b \<and> b \<le> end' \<and> bloomMatches (blockBloom (chain ! b)) q)
                  [s * secSize st..<Suc s * secSize st])"
proof -
  have avail: "\<not> list_ex (\<lambda>p. localFetch chain st p s = None) (neededBits q)"
    using assms by (auto simp: list_ex_iff neededBits_def localFetch_indexed)
  have "blockMatches (localFetch chain st) s (b - s * secSize st) q
          = bloomMatches (blockBloom (chain ! b)) q"
    if "b \<in> set [s * secSize st..<Suc s * secSize st]" for b
  proof -
    from that have "s * secSize st \<le> b" "b - s * secSize st < secSize st" by auto
    then show ?thesis
      using blockMatches_indexed [OF assms, of "b - s * secSize st"] by simp
  qed
  then have "filter (\<lambda>b. start \<le> b \<and> b \<le> end' \<and>
                  blockMatches (localFetch chain st) s (b - s * secSize st) q)
               [s * secSize st..<Suc s * secSize st]
           = filter (\<lambda>b. start \<le> b \<and> b \<le> end' \<and> bloomMatches (blockBloom (chain ! b)) q)
               [s * secSize st..<Suc s * secSize st]"
    by (intro filter_cong) auto
  with avail show ?thesis by (simp add: matchSection_def)
qed

lemma runSections_indexed:
  assumes "\<forall>s\<in>set ss. indexed chain st s" "\<forall>g\<in>set q. \<forall>p\<in>set g. p < BloomBitLength"
  shows "runSections (localFetch chain st) (secSize st) q start end' ss =
           (concat (map (\<lambda>s. filter (\<lambda>b. start \<le> b \<and> b \<le> end' \<and>
                                  bloomMatches (blockBloom (chain ! b)) q)
                              [s * secSize st..<Suc s * secSize st]) ss), None)"
  using assms by (induction ss) (simp_all add: matchSection_indexed)

lemma concat_sections:
  "a \<le> k \<Longrightarrow> concat (map (\<lambda>s. [s * n..<Suc s * n]) [a..<k]) = [a * n..<k * n]"
proof (induction k)
  case 0
  then show ?case by simp
next
  case (Suc k)
  show ?case
  proof (cases "a = Suc k")
    case True
    then show ?thesis by simp
  next
    case False
    with Suc.prems have le: "a \<le> k" by simp
    have "a * n \<le> k * n" using le by (rule mult_le_mono1)
    then have "[a * n..<k * n + n] = [a * n..<k * n] @ [k * n..<k * n + n]"
      by (rule upt_add_eq_append)
    with Suc.IH [OF le] le show ?thesis by (simp add: add.commute)
  qed
qed

lemma filter_range:
  assumes "lo \<le> start" "Suc end' \<le> hi"
  shows "filter (\<lambda>b. start \<le> b \<and> b \<le> end' \<and> P b) [lo..<hi] = filter P [start..<Suc end']"
proof (rule sorted_distinct_set_unique)
  show "set (filter (\<lambda>b. start \<le> b \<and> b \<le> end' \<and> P b) [lo..<hi]) = set (filter P [start..<Suc end'])"
    using assms by auto
qed (simp_all add: sorted_wrt_filter del: upt_Suc)

lemma runSession_indexed_list:
  assumes "0 < secSize st"
    and "\<forall>s. start div secSize st \<le> s \<and> s \<le> end' div secSize st \<longrightarrow> indexed chain st s"
    and "\<forall>g\<in>set q. \<forall>p\<in>set g. p < BloomBitLength"
  shows "runSession (localFetch chain st) (secSize st) q start end' =
           (filter (\<lambda>b. bloomMatches (blockBloom (chain ! b)) q) [start..<Suc end'], None)"
proof -
  let ?n = "secSize st"
  let ?P = "\<lambda>b. start \<le> b \<and> b \<le> end' \<and> bloomMatches (blockBloom (chain ! b)) q"
  have ix: "\<forall>s\<in>set [start div ?n..<Suc (end' div ?n)]. indexed chain st s"
    using assms(2) by auto
  note run = runSections_indexed [OF ix assms(3), of start end']
  have le: "start div ?n \<le> Suc (end' div ?n) \<or> end' < start"
    by (metis div_le_mono le_SucI linorder_not_less nat_le_linear)
  have "concat (map (\<lambda>s. filter ?P [s * ?n..<Suc s * ?n]) [start div ?n..<Suc (end' div ?n)])
          = filter (\<lambda>b. bloomMatches (blockBloom (chain ! b)) q) [start..<Suc end']"
  proof (cases "end' < start")
    case True
    then have "filter ?P xs = []" for xs by (induction xs) auto
    with True show ?thesis by (simp del: upt_Suc)
  next
    case False
    with le have le': "start div ?n \<le> Suc (end' div ?n)" by simp
    have "concat (map (\<lambda>s. filter ?P [s * ?n..<Suc s * ?n]) [start div ?n..<Suc (end' div ?n)])
            = filter ?P (concat (map (\<lambda>s. [s * ?n..<Suc s * ?n]) [start div ?n..<Suc (end' div ?n)]))"
      by (simp add: filter_concat comp_def del: upt_Suc mult_Suc)
    also have "\<dots> = filter ?P [start div ?n * ?n..<Suc (end' div ?n) * ?n]"
      by (simp only: concat_sections [OF le'])
    also have "\<dots> = filter (\<lambda>b. bloomMatches (blockBloom (chain ! b)) q) [start..<Suc end']"
    proof (rule filter_range)
      show "start div ?n * ?n \<le> start" by simp
      have "end' < Suc (end' div ?n) * ?n" using assms(1)
        by (metis dividend_less_div_times add.commute mult.commute mult_Suc)
      then show "Suc end' \<le> Suc (end' div ?n) * ?n" by simp
    qed
    finally show ?thesis .
  qed
  then show ?thesis unfolding runSession_def run by simp
qed

lemma bloomMatches_iff:
  "bloomMatches bl q = (\<forall>g\<in>set q. g = [] \<or> (\<exists>p\<in>set g. bit bl p))"
  by (auto simp: bloomMatches_def list_all_iff list_ex_iff)

lemma session_after_newHead:
  assumes "0 < size'"
    and "end' div size' < (length chain - depth) div size'"
    and "\<forall>g\<in>set q. \<forall>p\<in>set g. p < BloomBitLength"
  shows "runSession (localFetch chain (newHead chain (newIndexer size' depth))) size' q start end' =
           (filter (\<lambda>b. bloomMatches (blockBloom (chain ! b)) q) [start..<Suc end'], None)"
proof -
  let ?init = "newIndexer size' depth"
  let ?st = "newHead chain ?init"
  have sz: "secSize ?init = size'" "stored ?init = 0" "knownSections ?init chain = (length chain - depth) div size'"
    by (simp_all add: newIndexer_def knownSections_def)
  have sz': "secSize ?st = size'" by (simp add: newHead_def sz)
  have "indexed chain ?st s" if "s \<le> end' div size'" for s
    using newHead_indexed [of ?init s chain] that assms(1,2) by (simp add: sz)
  then show ?thesis
    using runSession_indexed_list [of ?st start end' chain q] assms(1,3) by (simp add: sz')
qed

lemma scenario_length: "length scenario_chain = 4"
  by (simp add: scenario_chain_def)

lemma scenario_query_5:
  "filter (\<lambda>b. bloomMatches (blockBloom (scenario_chain ! b)) [[5]]) [0..<Suc 3] = [0, 2]"
  by (simp add: scenario_chain_def bloomMatches_def upt_rec)

lemma scenario_query_5_9:
  "filter (\<lambda>b. bloomMatches (blockBloom (scenario_chain ! b)) [[5], [9]]) [0..<Suc 3] = [2]"
  by (simp add: scenario_chain_def bloomMatches_def upt_rec)

lemma scenario_query_wildcard:
  "filter (\<lambda>b. bloomMatches (blockBloom (scenario_chain ! b)) [[]]) [0..<Suc 3] = [0, 1, 2, 3]"
  by (simp add: scenario_chain_def bloomMatches_def upt_rec)

text \<open>
  C1, as stated, fails on a query with a wildcard group: for the chain of the spec's
  scenario, indexed with section size 4, the query \<open>[{}]\<close> over \<open>[0,3]\<close> reports the
  blocks 0, 1, 2, 3, yet in block 1 (whose bloom filter is empty) it is not true that
  every OR-group of the query has one of its bit positions set.
\<close>

theorem matcher_wildcard_counterexample:
  "runSession (localFetch scenario_chain (newHead scenario_chain (newIndexer 4 0))) 4 [[]] 0 3
     = ([0, 1, 2, 3], None)
   \<and> \<not> everyGroupHasSetBit (blockBloom (scenario_chain ! 1)) [[]]"
proof -
  have "runSession (localFetch scenario_chain (newHead scenario_chain (newIndexer 4 0))) 4 [[]] 0 3
     = (filter (\<lambda>b. bloomMatches (blockBloom (scenario_chain ! b)) [[]]) [0..<Suc 3], None)"
    by (rule session_after_newHead) (simp_all add: scenario_length)
  then have "runSession (localFetch scenario_chain (newHead scenario_chain (newIndexer 4 0))) 4 [[]] 0 3
     = ([0, 1, 2, 3], None)"
    by (simp only: scenario_query_wildcard)
  moreover have "\<not> everyGroupHasSetBit (blockBloom (scenario_chain ! 1)) [[]]"
    by (simp add: everyGroupHasSetBit_def)
  ultimately show ?thesis by (rule conjI)
qed

text \<open>
  C1, amended. For every filter query whose bit positions are below 2048 and every
  range \<open>[start, end]\<close> that lies in the sections the indexer has stored for the chain,
  the session ends without error and reports block \<open>b\<close> exactly when \<open>b\<close> is in the
  range and every OR-group of the query is empty (the wildcard) or has at least one
  of its bit positions set in the bloom filter of block \<open>b\<close> itself; the blocks are
  reported in ascending order, each once. In the spec's scenario the query \<open>[{5}]\<close>
  yields the blocks 0 and 2, and \<open>[{5},{9}]\<close> yields block 2.
\<close>

theorem matcher_reports_ground_truth:
  assumes "0 < size'"
    and "end' div size' < (length chain - depth) div size'"
    and "\<forall>g\<in>set q. \<forall>p\<in>set g. p < 2048"
  shows "runSession (localFetch chain (newHead chain (newIndexer size' depth))) size' q start end'
           = (filter (\<lambda>b. bloomMatches (blockBloom (chain ! b)) q) [start..<Suc end'], None)
       \<and> (b \<in> set (fst (runSession (localFetch chain (newHead chain (newIndexer size' depth)))
                          size' q start end'))
           \<longleftrightarrow> start \<le> b \<and> b \<le> end' \<and>
               (\<forall>g\<in>set q. g = [] \<or> (\<exists>p\<in>set g. bit (blockBloom (chain ! b)) p)))"
proof -
  have bits: "\<forall>g\<in>set q. \<forall>p\<in>set g. p < BloomBitLength"
    using assms(3) by (simp add: BloomBitLength_def)
  note run = session_after_newHead [OF assms(1,2) bits, of start]
  show ?thesis unfolding run by (auto simp: bloomMatches_iff)
qed

theorem matcher_reports_ground_truth_witness:
  "(0::nat) < 4 \<and> (3::nat) div 4 < (length scenario_chain - 0) div 4
   \<and> runSession (localFetch scenario_chain (newHead scenario_chain (newIndexer 4 0))) 4 [[5]] 0 3
       = ([0, 2], None)
   \<and> runSession (localFetch scenario_chain (newHead scenario_chain (newIndexer 4 0))) 4 [[5], [9]] 0 3
       = ([2], None)"
proof -
  have s: "(0::nat) < 4" by simp
  have r: "(3::nat) div 4 < (length scenario_chain - 0) div 4" by (simp add: scenario_length)
  have q1: "\<forall>g\<in>set [[5::nat]]. \<forall>p\<in>set g. p < 2048" by simp
  have q2: "\<forall>g\<in>set [[5::nat], [9]]. \<forall>p\<in>set g. p < 2048" by simp
  from matcher_reports_ground_truth [OF s r q1, of 0 0]
       matcher_reports_ground_truth [OF s r q2, of 0 0] s r
  show ?thesis by (simp only: scenario_query_5 scenario_query_5_9 simp_thms)
qed

section \<open>Reorganization and reprocessing\<close>

lemma old_chain_length: "length old_chain = 8"
  by (simp add: old_chain_def scenario_chain_def)

lemma new_chain_length: "length new_chain = 8"
  by (simp add: new_chain_def old_chain_length)

text \<open>
  C5. After a reorg with common ancestor \<open>N\<close> followed by reprocessing on the new
  canonical chain: a stored section whose range lies entirely at or below \<open>N\<close> is
  still stored, with its checkpoint and every fragment unchanged; a section whose
  range extends beyond \<open>N\<close> is invalidated by the reorg (not stored, checkpoint
  deleted), and once reprocessing reaches it (it is confirmed on the new chain) it
  is stored again with all 2048 fragments being the codec's output on the new
  chain's bloom filters, so that every fragment bit read back through the local
  backend is the bit of the new chain's block.
\<close>

theorem reorg_then_reprocess:
  assumes "0 < secSize st"
  shows "(s < stored st \<and> Suc s * secSize st \<le> Suc N \<longrightarrow>
            s < stored (newHead chain' (reorg N st)) \<and>
            checkpoints (newHead chain' (reorg N st)) s = checkpoints st s \<and>
            (\<forall>b h. fragments (newHead chain' (reorg N st)) (b, s, h) = fragments st (b, s, h)))
       \<and> (Suc N < Suc s * secSize st \<longrightarrow>
            \<not> s < stored (reorg N st) \<and> checkpoints (reorg N st) s = None \<and>
            (s < knownSections st chain' \<longrightarrow>
               s < stored (newHead chain' (reorg N st)) \<and>
               indexed chain' (newHead chain' (reorg N st)) s \<and>
               (\<forall>b off. b < 2048 \<and> off < secSize st \<longrightarrow>
                  (\<exists>frag. localFetch chain' (newHead chain' (reorg N st)) b s = Some frag \<and>
                     testBit frag off = bit (blockBloom (chain' ! (s * secSize st + off))) b))))"
proof (intro conjI impI)
  let ?r = "reorg N st"
  have pos: "0 < secSize ?r" using assms by simp
  note st = newHead_stored [OF pos, of chain']
  {
    assume a: "s < stored st \<and> Suc s * secSize st \<le> Suc N"
    then have below: "s < Suc N div secSize st"
      using section_below [OF assms, of s N] by blast
    with a have lt: "s < stored ?r" by simp
    then show "s < stored (newHead chain' ?r)" by (simp add: st del: reorg_fields)
    show "checkpoints (newHead chain' ?r) s = checkpoints st s"
      using newHead_untouched(1) [OF lt, of chain'] below by simp
    show "\<forall>b h. fragments (newHead chain' ?r) (b, s, h) = fragments st (b, s, h)"
      using newHead_untouched(2) [OF lt, of chain'] by simp
  }
  {
    assume b: "Suc N < Suc s * secSize st"
    then have ge: "\<not> s < Suc N div secSize st"
      using section_below [OF assms, of s N] by linarith
    then show "\<not> s < stored ?r" by simp
    from ge show "checkpoints ?r s = None" by simp
    assume k: "s < knownSections st chain'"
    then show "s < stored (newHead chain' ?r)" by (simp add: st del: reorg_fields)
    from ge have "stored ?r \<le> s" by simp
    then show ix: "indexed chain' (newHead chain' ?r) s"
      using newHead_indexed [OF pos _ , of s chain'] k by simp
    have sz: "secSize (newHead chain' ?r) = secSize st" by (simp add: newHead_def)
    show "\<forall>b off. b < 2048 \<and> off < secSize st \<longrightarrow>
            (\<exists>frag. localFetch chain' (newHead chain' ?r) b s = Some frag \<and>
               testBit frag off = bit (blockBloom (chain' ! (s * secSize st + off))) b)"
      using localFetch_indexed [OF ix] testBit_indexed [OF ix]
      by (simp add: sz BloomBitLength_def)
  }
qed

theorem reorg_then_reprocess_witness:
  "0 < secSize (newHead old_chain (newIndexer 4 0))
   \<and> 0 < stored (newHead old_chain (newIndexer 4 0))
   \<and> Suc 0 * secSize (newHead old_chain (newIndexer 4 0)) \<le> Suc 5
   \<and> checkpoints (newHead new_chain (reorg 5 (newHead old_chain (newIndexer 4 0)))) 0
       = checkpoints (newHead old_chain (newIndexer 4 0)) 0
   \<and> Suc 5 < Suc 1 * secSize (newHead old_chain (newIndexer 4 0))
   \<and> 1 < knownSections (newHead old_chain (newIndexer 4 0)) new_chain
   \<and> checkpoints (reorg 5 (newHead old_chain (newIndexer 4 0))) 1 = None
   \<and> indexed new_chain (newHead new_chain (reorg 5 (newHead old_chain (newIndexer 4 0)))) 1"
proof -
  let ?ix = "newHead old_chain (newIndexer 4 0)"
  have sz: "secSize ?ix = 4" "confirmationDepth ?ix = 0"
    by (simp_all add: newHead_def newIndexer_def)
  have pos: "0 < secSize ?ix" by (simp add: sz)
  have st: "stored ?ix = 2"
    using newHead_stored [of "newIndexer 4 0" old_chain]
    by (simp add: newIndexer_def knownSections_def old_chain_length)
  have kn: "knownSections ?ix new_chain = 2"
    by (simp add: knownSections_def sz new_chain_length)
  from reorg_then_reprocess [OF pos, of 0 5 new_chain]
       reorg_then_reprocess [OF pos, of 1 5 new_chain]
  show ?thesis by (simp add: sz st kn)
qed

section \<open>Shutdown and the visibility of sections\<close>






lemma run_Nil [simp]: "run [] p = p"
  by (simp add: run_def)







section \<open>Cancelling a session\<close>

lemma sessionRun_Nil [simp]: "sessionRun fetch [] s = s"
  by (simp add: sessionRun_def)

lemma sessionRun_Cons [simp]:
  "sessionRun fetch (e # evs) s = sessionRun fetch evs (sessionStep fetch e s)"
  by (simp add: sessionRun_def)

lemma cancelled_step:
  assumes "cancelled s"
  shows "cancelled (sessionStep fetch e s) \<and>
         requested (sessionStep fetch e s) = requested s \<and>
         (\<exists>j. emitted (sessionStep fetch e s) = emitted s @ take j (pending (phase s)) \<and>
              pending (phase (sessionStep fetch e s)) = drop j (pending (phase s)))"
proof (cases e)
  case Advance
  with assms show ?thesis
    by (auto intro!: exI [of _ 0] simp: )
next
  case Deliver
  with assms show ?thesis
    by (cases "phase s") (auto intro!: exI [of _ 0])
next
  case Next
  show ?thesis
  proof (cases "phase s")
    case (Emitting ms)
    show ?thesis
    proof (cases ms)
      case Nil
      with assms Next Emitting show ?thesis by (auto intro!: exI [of _ 0])
    next
      case (Cons m rest)
      with assms Next Emitting show ?thesis by (auto intro!: exI [of _ 1])
    qed
  qed (use assms Next in \<open>auto intro!: exI [of _ 0]\<close>)
next
  case Cancel
  with assms show ?thesis by (auto intro!: exI [of _ 0])
qed

lemma cancelled_run:
  assumes "cancelled s"
  shows "cancelled (sessionRun fetch evs s) \<and>
         requested (sessionRun fetch evs s) = requested s \<and>
         (\<exists>k. emitted (sessionRun fetch evs s) = emitted s @ take k (pending (phase s)))"
  using assms
proof (induction evs arbitrary: s)
  case Nil
  then show ?case by (auto intro!: exI [of _ 0])
next
  case (Cons e evs)
  let ?t = "sessionStep fetch e s"
  from cancelled_step [OF Cons.prems, of fetch e]
  obtain j where c: "cancelled ?t" and r: "requested ?t = requested s"
    and em: "emitted ?t = emitted s @ take j (pending (phase s))"
    and pe: "pending (phase ?t) = drop j (pending (phase s))"
    by blast
  from Cons.IH [OF c]
  obtain k where c': "cancelled (sessionRun fetch evs ?t)"
    and r': "requested (sessionRun fetch evs ?t) = requested ?t"
    and em': "emitted (sessionRun fetch evs ?t) = emitted ?t @ take k (pending (phase ?t))"
    by blast
  have "emitted (sessionRun fetch evs ?t) = emitted s @ take (j + k) (pending (phase s))"
    by (simp add: em' em pe take_add)
  with c' r' r show ?case by auto
qed

lemma sessionInv_step:
  assumes "sessionInv chain st q start end' s" "\<forall>g\<in>set q. \<forall>p\<in>set g. p < BloomBitLength"
  shows "sessionInv chain st q start end' (sessionStep (localFetch chain st) e s)"
proof (cases e)
  case Advance
  with assms(1) show ?thesis
    by (cases "cursor s") (auto simp: sessionInv_def)
next
  case Deliver
  show ?thesis
  proof (cases "phase s")
    case (Awaiting sec)
    with assms(1) have ix: "indexed chain st sec" by (simp add: sessionInv_def)
    have ms: "matchSection (localFetch chain st) (secLen s) (query s) (startBlock s) (endBlock s) sec
              = Inr (filter (\<lambda>b. start \<le> b \<and> b \<le> end' \<and> bloomMatches (blockBloom (chain ! b)) q)
                      [sec * secSize st..<Suc sec * secSize st])"
      using matchSection_indexed [OF ix assms(2), of start end'] assms(1)
      by (simp add: sessionInv_def)
    have st: "sessionStep (localFetch chain st) Deliver s =
                (if cancelled s then s\<lparr>phase := Done, outstanding := 0\<rparr>
                 else s\<lparr>phase := Emitting
                        (filter (\<lambda>b. start \<le> b \<and> b \<le> end' \<and> bloomMatches (blockBloom (chain ! b)) q)
                           [sec * secSize st..<Suc sec * secSize st]),
                        outstanding := 0\<rparr>)"
      using Awaiting ms by simp
    from assms(1) show ?thesis
      unfolding Deliver st by (auto simp: sessionInv_def)
  qed (use assms(1) Deliver in \<open>auto simp: sessionInv_def\<close>)
next
  case Next
  show ?thesis
  proof (cases "phase s")
    case (Emitting ms)
    with assms(1) Next show ?thesis
      by (cases ms) (auto simp: sessionInv_def)
  qed (use assms(1) Next in \<open>auto simp: sessionInv_def\<close>)
next
  case Cancel
  with assms(1) show ?thesis by (auto simp: sessionInv_def)
qed

lemma sessionInv_run:
  assumes "sessionInv chain st q start end' s" "\<forall>g\<in>set q. \<forall>p\<in>set g. p < BloomBitLength"
  shows "sessionInv chain st q start end' (sessionRun (localFetch chain st) evs s)"
  using assms(1)
  by (induction evs arbitrary: s) (simp_all add: sessionInv_step assms(2))

lemma sessionInv_NewSession:
  assumes "0 < size'" "end' div size' < (length chain - depth) div size'"
  shows "sessionInv chain (newHead chain (newIndexer size' depth)) q start end'
           (NewSession q size' start end')"
proof -
  let ?init = "newIndexer size' depth"
  have sz: "secSize ?init = size'" "stored ?init = 0"
    "knownSections ?init chain = (length chain - depth) div size'"
    by (simp_all add: newIndexer_def knownSections_def)
  have "indexed chain (newHead chain ?init) sec" if "sec \<le> end' div size'" for sec
    using newHead_indexed [of ?init sec chain] that assms by (simp add: sz)
  then show ?thesis
    by (auto simp: sessionInv_def NewSession_def newHead_def sz)
qed

text \<open>
  C6. For every matcher session over an indexed range and every moment at which
  \<open>Close\<close>/cancel is invoked, whatever happens afterwards: the session issues no
  further fragment request; the results it still emits are pending results of the
  section it was handing out when the cancel arrived, so emission stops at the
  latest at the next section boundary, and once nothing is pending nothing more is
  ever emitted; the results emitted before the cancel stay the beginning of the
  emitted sequence, and every emitted result is a block of the range that matches
  the query on its own bloom filter.
\<close>

theorem cancel_stops_session:
  assumes "0 < size'"
    and "end' div size' < (length chain - depth) div size'"
    and "\<forall>g\<in>set q. \<forall>p\<in>set g. p < 2048"
    and "fetch = localFetch chain (newHead chain (newIndexer size' depth))"
    and "s = sessionRun fetch evs (NewSession q size' start end')"
    and "s' = sessionRun fetch evs' (sessionStep fetch Cancel s)"
  shows "requested s' = requested s
       \<and> (\<exists>k. emitted s' = emitted s @ take k (pending (phase s)))
       \<and> (pending (phase s') = [] \<longrightarrow> (\<forall>evs''. emitted (sessionRun fetch evs'' s') = emitted s'))
       \<and> (\<forall>b\<in>set (emitted s'). start \<le> b \<and> b \<le> end' \<and>
              (\<forall>g\<in>set q. g = [] \<or> (\<exists>p\<in>set g. bit (blockBloom (chain ! b)) p)))"
proof -
  let ?st = "newHead chain (newIndexer size' depth)"
  let ?c = "sessionStep fetch Cancel s"
  have bits: "\<forall>g\<in>set q. \<forall>p\<in>set g. p < BloomBitLength"
    using assms(3) by (simp add: BloomBitLength_def)
  have c: "cancelled ?c" "requested ?c = requested s" "emitted ?c = emitted s"
    "phase ?c = phase s"
    by simp_all
  note after = cancelled_run [OF c(1), of fetch evs', folded assms(6)]
  have 1: "requested s' = requested s" using after c by simp
  have 2: "\<exists>k. emitted s' = emitted s @ take k (pending (phase s))" using after c by simp
  have 3: "pending (phase s') = [] \<longrightarrow> (\<forall>evs''. emitted (sessionRun fetch evs'' s') = emitted s')"
  proof (intro impI allI)
    fix evs''
    assume e: "pending (phase s') = []"
    from after have "cancelled s'" by simp
    from cancelled_run [OF this, of fetch evs''] e
    show "emitted (sessionRun fetch evs'' s') = emitted s'" by auto
  qed
  have inv0: "sessionInv chain ?st q start end' (NewSession q size' start end')"
    using assms(1,2) by (rule sessionInv_NewSession)
  have "sessionInv chain ?st q start end' s"
    unfolding assms(5) assms(4) using inv0 bits by (rule sessionInv_run)
  then have "sessionInv chain ?st q start end' (sessionStep (localFetch chain ?st) Cancel s)"
    using bits by (rule sessionInv_step)
  then have "sessionInv chain ?st q start end' s'"
    unfolding assms(6) assms(4) using bits by (rule sessionInv_run)
  then have 4: "\<forall>b\<in>set (emitted s'). start \<le> b \<and> b \<le> end' \<and>
              (\<forall>g\<in>set q. g = [] \<or> (\<exists>p\<in>set g. bit (blockBloom (chain ! b)) p))"
    by (auto simp: sessionInv_def bloomMatches_iff)
  from 1 2 3 4 show ?thesis by blast
qed

lemma session_backend_section_0:
  "matchSection session_backend 4 [[5]] 0 7 0 = Inr [0, 2]"
proof -
  let ?st = "newHead old_chain (newIndexer 4 0)"
  have init: "secSize (newIndexer 4 0) = 4" "stored (newIndexer 4 0) = 0"
    "knownSections (newIndexer 4 0) old_chain = 2"
    by (simp_all add: newIndexer_def knownSections_def old_chain_length)
  have sz: "secSize ?st = 4" by (simp add: newHead_def init)
  have ix: "indexed old_chain ?st 0"
    using newHead_indexed [of "newIndexer 4 0" 0 old_chain] by (simp add: init)
  have bits: "\<forall>g\<in>set [[5::nat]]. \<forall>p\<in>set g. p < BloomBitLength"
    by (simp add: BloomBitLength_def)
  have "matchSection (localFetch old_chain ?st) (secSize ?st) [[5]] 0 7 0 =
          Inr (filter (\<lambda>b. 0 \<le> b \<and> b \<le> 7 \<and> bloomMatches (blockBloom (old_chain ! b)) [[5]])
                 [0 * secSize ?st..<Suc 0 * secSize ?st])"
    using ix bits by (rule matchSection_indexed)
  then have "matchSection session_backend 4 [[5]] 0 7 0 =
          Inr (filter (\<lambda>b. 0 \<le> b \<and> b \<le> 7 \<and> bloomMatches (blockBloom (old_chain ! b)) [[5]])
                 [0..<4])"
    by (simp add: sz session_backend_def)
  moreover
  have "filter (\<lambda>b. 0 \<le> b \<and> b \<le> 7 \<and> bloomMatches (blockBloom (old_chain ! b)) [[5]]) [0..<4]
          = [0, 2]"
    by (simp add: old_chain_def scenario_chain_def bloomMatches_def upt_rec)
  ultimately show ?thesis by simp
qed

lemma session_before_eq:
  "session_before =
     \<lparr>query = [[5]], secLen = 4, startBlock = 0, endBlock = 7, cursor = [1],
      phase = Emitting [2], outstanding = 0, cancelled = False, emitted = [0],
      requested = [(5, 0)], sessionErr = None\<rparr>"
  by (simp add: session_before_def NewSession_def session_backend_section_0 neededBits_def)

theorem cancel_stops_session_witness:
  "(0::nat) < 4 \<and> (7::nat) div 4 < (length old_chain - 0) div 4
   \<and> cursor session_before = [1] \<and> phase session_before = Emitting [2]
   \<and> emitted session_before = [0] \<and> requested session_before = [(5, 0)]
   \<and> emitted session_after = [0, 2] \<and> requested session_after = [(5, 0)]
   \<and> phase session_after = Done"
proof -
  have h1: "(0::nat) < 4" by simp
  have h2: "(7::nat) div 4 < (length old_chain - 0) div 4" by (simp add: old_chain_length)
  have h3: "\<forall>g\<in>set [[5::nat]]. \<forall>p\<in>set g. p < 2048" by simp
  have h4: "session_backend = localFetch old_chain (newHead old_chain (newIndexer 4 0))"
    by (rule session_backend_def)
  have "requested session_after = requested session_before"
    using cancel_stops_session [OF h1 h2 h3 h4 session_before_def session_after_def]
    by (rule conjunct1)
  then have r: "requested session_after = [(5, 0)]" by (simp add: session_before_eq)
  have e: "emitted session_after = [0, 2]" "phase session_after = Done"
    by (simp_all add: session_after_def session_before_eq)
  from h1 h2 r e show ?thesis by (simp add: session_before_eq)
qed

end
